theory Spec2Isabelle
  imports Complex_Main "HOL-Library.Signed_Division"
begin

section \<open>The process table of \<open>parta.c\<close>\<close>

text \<open>
  The table is an array of \<open>struct pcb\<close>, each with three \<open>int\<close> fields. The
  array behind the pointer \<open>procs\<close> is a list, and its length \<open>plen\<close> is passed
  next to it, as in the source; the statements below are about calls in which \<open>plen\<close>
  is the number of records of the array. A null pointer takes the same early return as
  \<open>plen \<le> 0\<close> in every function and is left out.

  C's \<open>int\<close> has 32 bits and the integers of the model have no bound, so an addition
  that can leave the range of \<open>int\<close> is wrapped: \<open>wrap_int\<close> gives the
  two's-complement value that the machine addition stores (C itself leaves a signed
  overflow undefined; the wrap is what the compiled program does). Three additions of
  \<open>parta.c\<close> can overflow: \<open>wait += run_time\<close> in \<open>run_proc\<close> and
  \<open>total_time += \<dots>\<close> in each driver. The subtraction \<open>burst_left -= run_time\<close>
  has \<open>0 < run_time \<le> burst_left\<close> and stays in range, and the loop counters stay
  below \<open>plen\<close>.
\<close>

definition wrap_int :: "int \<Rightarrow> int" where
  "wrap_int x = (x + 2147483648) mod 4294967296 - 2147483648"

text \<open>
  Modelled from the spec: the declaration of \<open>struct pcb\<close>, which lives in the header
  \<open>parta.h\<close> and not in \<open>parta.c\<close>. The spec's process record has three integer
  fields (id, remaining burst, accumulated wait); \<open>parta.c\<close> reads and writes them
  as \<open>pid\<close>, \<open>burst_left\<close> and \<open>wait\<close>.
\<close>

record pcb =
  pid :: int
  burst_left :: int
  wait :: int

subsection \<open>\<open>init_procs\<close>\<close>

function init_procs_loop :: "int list \<Rightarrow> int \<Rightarrow> int \<Rightarrow> pcb list" where
  "init_procs_loop bursts blen i =
     (if i < blen
      then \<lparr>pid = i, burst_left = bursts ! nat i, wait = 0\<rparr> # init_procs_loop bursts blen (i + 1)
      else [])"
  by pat_completeness auto
termination
  by (relation "measure (\<lambda>(bursts, blen, i). nat (blen - i))") auto

declare init_procs_loop.simps [simp del]

text \<open>The result \<open>None\<close> is the null pointer returned for \<open>blen \<le> 0\<close>.\<close>

definition init_procs :: "int list \<Rightarrow> int \<Rightarrow> pcb list option" where
  "init_procs bursts blen =
     (if blen \<le> 0 then None else Some (init_procs_loop bursts blen 0))"

subsection \<open>\<open>run_proc\<close>\<close>

text \<open>The loop over \<open>i\<close> that adds \<open>run_time\<close> to the wait of every other live record.\<close>

function run_proc_loop :: "pcb list \<Rightarrow> int \<Rightarrow> int \<Rightarrow> int \<Rightarrow> int \<Rightarrow> pcb list" where
  "run_proc_loop procs plen current run_time i =
     (if i < plen then
        (if i = current then run_proc_loop procs plen current run_time (i + 1)
         else if burst_left (procs ! nat i) > 0
         then run_proc_loop
                (procs[nat i := (procs ! nat i)\<lparr>wait := wrap_int (wait (procs ! nat i) + run_time)\<rparr>])
                plen current run_time (i + 1)
         else run_proc_loop procs plen current run_time (i + 1))
      else procs)"
  by pat_completeness auto
termination
  by (relation "measure (\<lambda>(procs, plen, current, run_time, i). nat (plen - i))") auto

declare run_proc_loop.simps [simp del]

definition run_proc :: "pcb list \<Rightarrow> int \<Rightarrow> int \<Rightarrow> int \<Rightarrow> pcb list" where
  "run_proc procs plen current amount =
     (if plen \<le> 0 then procs
      else if current < 0 \<or> current \<ge> plen then procs
      else if amount \<le> 0 then procs
      else
        let available = burst_left (procs ! nat current) in
        if available \<le> 0 then procs
        else
          let run_time = (if available < amount then available else amount);
              procs1 = procs[nat current :=
                         (procs ! nat current)\<lparr>burst_left := burst_left (procs ! nat current) - run_time\<rparr>]
          in run_proc_loop procs1 plen current run_time 0)"

subsection \<open>\<open>fcfs_run\<close>\<close>

text \<open>The driver returns the table it leaves behind together with \<open>total_time\<close>.\<close>

function fcfs_run_loop :: "pcb list \<Rightarrow> int \<Rightarrow> int \<Rightarrow> int \<Rightarrow> pcb list \<times> int" where
  "fcfs_run_loop procs plen i total_time =
     (if i < plen then
        (let remaining = burst_left (procs ! nat i) in
         if remaining \<le> 0 then fcfs_run_loop procs plen (i + 1) total_time
         else fcfs_run_loop (run_proc procs plen i remaining) plen (i + 1)
                (wrap_int (total_time + remaining)))
      else (procs, total_time))"
  by pat_completeness auto
termination
  by (relation "measure (\<lambda>(procs, plen, i, total_time). nat (plen - i))") auto

declare fcfs_run_loop.simps [simp del]

definition fcfs_run :: "pcb list \<Rightarrow> int \<Rightarrow> pcb list \<times> int" where
  "fcfs_run procs plen = (if plen \<le> 0 then (procs, 0) else fcfs_run_loop procs plen 0 0)"

subsection \<open>\<open>rr_next\<close>\<close>

text \<open>The first loop of \<open>rr_next\<close>: is there a record with work left?\<close>

function has_work :: "pcb list \<Rightarrow> int \<Rightarrow> int \<Rightarrow> bool" where
  "has_work procs plen i =
     (if i < plen then
        (if burst_left (procs ! nat i) > 0 then True else has_work procs plen (i + 1))
      else False)"
  by pat_completeness auto
termination
  by (relation "measure (\<lambda>(procs, plen, i). nat (plen - i))") auto

declare has_work.simps [simp del]

text \<open>
  The circular scan. C's \<open>%\<close> truncates towards zero, which is \<open>smod\<close>; the value
  \<open>-1\<close> is the signal that nothing was found.
\<close>

function rr_next_scan :: "pcb list \<Rightarrow> int \<Rightarrow> int \<Rightarrow> int \<Rightarrow> int" where
  "rr_next_scan procs plen start offset =
     (if offset < plen then
        (let idx = (start + offset) smod plen in
         if burst_left (procs ! nat idx) > 0 then idx
         else rr_next_scan procs plen start (offset + 1))
      else - 1)"
  by pat_completeness auto
termination
  by (relation "measure (\<lambda>(procs, plen, start, offset). nat (plen - offset))") auto

declare rr_next_scan.simps [simp del]

definition rr_next :: "int \<Rightarrow> pcb list \<Rightarrow> int \<Rightarrow> int" where
  "rr_next current procs plen =
     (if plen \<le> 0 then - 1
      else if \<not> has_work procs plen 0 then - 1
      else rr_next_scan procs plen ((current + 1) smod plen) 0)"

subsection \<open>\<open>rr_run\<close>\<close>

text \<open>The search for the first record with work; \<open>-1\<close> when there is none.\<close>

function rr_first :: "pcb list \<Rightarrow> int \<Rightarrow> int \<Rightarrow> int" where
  "rr_first procs plen i =
     (if i < plen then
        (if burst_left (procs ! nat i) > 0 then i else rr_first procs plen (i + 1))
      else - 1)"
  by pat_completeness auto
termination
  by (relation "measure (\<lambda>(procs, plen, i). nat (plen - i))") auto

declare rr_first.simps [simp del]

text \<open>
  The \<open>while (1)\<close> loop leaves only through its \<open>break\<close>, so it is a partial function:
  \<open>None\<close> stands for a run that never returns.
\<close>

partial_function (option) rr_run_loop ::
  "pcb list \<Rightarrow> int \<Rightarrow> int \<Rightarrow> int \<Rightarrow> int \<Rightarrow> (pcb list \<times> int) option" where
  "rr_run_loop procs plen quantum current total_time =
     (let remaining = burst_left (procs ! nat current);
          run_time = (if remaining < quantum then remaining else quantum);
          procs1 = (if remaining > 0 then run_proc procs plen current run_time else procs);
          total1 = (if remaining > 0 then wrap_int (total_time + run_time) else total_time);
          next = rr_next current procs1 plen
      in if next = - 1 then Some (procs1, total1)
         else rr_run_loop procs1 plen quantum next total1)"

declare rr_run_loop.simps [code]

definition rr_run :: "pcb list \<Rightarrow> int \<Rightarrow> int \<Rightarrow> (pcb list \<times> int) option" where
  "rr_run procs plen quantum =
     (if plen \<le> 0 \<or> quantum \<le> 0 then Some (procs, 0)
      else
        let current = rr_first procs plen 0 in
        if current = - 1 then Some (procs, 0)
        else rr_run_loop procs plen quantum current 0)"

subsection \<open>Sequences of calls\<close>


text \<open>
  The two drivers again, with a ghost list that records every call of \<open>run_proc\<close>
  they make, in order. Nothing else differs from the loops above.
\<close>

function fcfs_run_loop_calls ::
  "pcb list \<Rightarrow> int \<Rightarrow> int \<Rightarrow> int \<Rightarrow> (int \<times> int) list \<Rightarrow> pcb list \<times> int \<times> (int \<times> int) list" where
  "fcfs_run_loop_calls procs plen i total_time calls =
     (if i < plen then
        (let remaining = burst_left (procs ! nat i) in
         if remaining \<le> 0 then fcfs_run_loop_calls procs plen (i + 1) total_time calls
         else fcfs_run_loop_calls (run_proc procs plen i remaining) plen (i + 1)
                (wrap_int (total_time + remaining)) (calls @ [(i, remaining)]))
      else (procs, total_time, calls))"
  by pat_completeness auto
termination
  by (relation "measure (\<lambda>(procs, plen, i, total_time, calls). nat (plen - i))") auto

declare fcfs_run_loop_calls.simps [simp del]

definition fcfs_run_calls :: "pcb list \<Rightarrow> int \<Rightarrow> pcb list \<times> int \<times> (int \<times> int) list" where
  "fcfs_run_calls procs plen =
     (if plen \<le> 0 then (procs, 0, []) else fcfs_run_loop_calls procs plen 0 0 [])"

partial_function (option) rr_run_loop_calls ::
  "pcb list \<Rightarrow> int \<Rightarrow> int \<Rightarrow> int \<Rightarrow> int \<Rightarrow> (int \<times> int) list
     \<Rightarrow> (pcb list \<times> int \<times> (int \<times> int) list) option" where
  "rr_run_loop_calls procs plen quantum current total_time calls =
     (let remaining = burst_left (procs ! nat current);
          run_time = (if remaining < quantum then remaining else quantum);
          procs1 = (if remaining > 0 then run_proc procs plen current run_time else procs);
          total1 = (if remaining > 0 then wrap_int (total_time + run_time) else total_time);
          calls1 = (if remaining > 0 then calls @ [(current, run_time)] else calls);
          next = rr_next current procs1 plen
      in if next = - 1 then Some (procs1, total1, calls1)
         else rr_run_loop_calls procs1 plen quantum next total1 calls1)"

declare rr_run_loop_calls.simps [code]

definition rr_run_calls ::
  "pcb list \<Rightarrow> int \<Rightarrow> int \<Rightarrow> (pcb list \<times> int \<times> (int \<times> int) list) option" where
  "rr_run_calls procs plen quantum =
     (if plen \<le> 0 \<or> quantum \<le> 0 then Some (procs, 0, [])
      else
        let current = rr_first procs plen 0 in
        if current = - 1 then Some (procs, 0, [])
        else rr_run_loop_calls procs plen quantum current 0 [])"
section \<open>Additions of \<open>int\<close>\<close>

lemma wrap_int_id: "- 2147483648 \<le> x \<Longrightarrow> x \<le> 2147483647 \<Longrightarrow> wrap_int x = x"
  by (simp add: wrap_int_def)

lemma wrap_int_range: "- 2147483648 \<le> wrap_int x" "wrap_int x \<le> 2147483647"
proof -
  have "0 \<le> (x + 2147483648) mod 4294967296" "(x + 2147483648) mod 4294967296 < 4294967296"
    by simp_all
  then show "- 2147483648 \<le> wrap_int x" "wrap_int x \<le> 2147483647"
    unfolding wrap_int_def by linarith+
qed

lemma wrap_int_add_left: "wrap_int (wrap_int a + b) = wrap_int (a + b)"
proof -
  have "wrap_int a + b + 2147483648 = (a + 2147483648) mod 4294967296 + b"
    by (simp add: wrap_int_def)
  then have "(wrap_int a + b + 2147483648) mod 4294967296 =
        ((a + 2147483648) mod 4294967296 + b) mod 4294967296"
    by (simp only:)
  also have "\<dots> = (a + 2147483648 + b) mod 4294967296"
    by (simp only: mod_add_left_eq)
  also have "a + 2147483648 + b = a + b + 2147483648" by simp
  finally show ?thesis by (simp only: wrap_int_def)
qed

section \<open>The loops, record by record\<close>

lemma init_procs_loop_length:
  "length (init_procs_loop bursts blen i) = nat (blen - i)"
proof (induction bursts blen i rule: init_procs_loop.induct)
  case (1 bursts blen i)
  show ?case
  proof (cases "i < blen")
    case True
    then have "nat (blen - i) = Suc (nat (blen - (i + 1)))" by simp
    with True 1 show ?thesis by (subst init_procs_loop.simps) simp
  next
    case False
    then show ?thesis by (subst init_procs_loop.simps) simp
  qed
qed

lemma init_procs_loop_nth:
  "0 \<le> i \<Longrightarrow> j < nat (blen - i) \<Longrightarrow>
   init_procs_loop bursts blen i ! j =
     \<lparr>pid = i + int j, burst_left = bursts ! (nat i + j), wait = 0\<rparr>"
proof (induction bursts blen i arbitrary: j rule: init_procs_loop.induct)
  case (1 bursts blen i)
  from "1.prems" have lt: "i < blen" by simp
  show ?case
  proof (cases j)
    case 0
    with lt show ?thesis by (subst init_procs_loop.simps) simp
  next
    case (Suc k)
    with "1.prems" have k: "k < nat (blen - (i + 1))" by simp
    have "init_procs_loop bursts blen (i + 1) ! k =
            \<lparr>pid = i + 1 + int k, burst_left = bursts ! (nat (i + 1) + k), wait = 0\<rparr>"
      using "1.IH" [OF lt _ k] "1.prems" by simp
    moreover have "nat (i + 1) + k = nat i + Suc k" using "1.prems" by simp
    ultimately show ?thesis using lt Suc
      by (subst init_procs_loop.simps) simp
  qed
qed

lemma init_procs_Some:
  assumes "init_procs bursts (int (length bursts)) = Some procs"
  shows "length procs = length bursts"
    and "j < length bursts \<Longrightarrow> procs ! j = \<lparr>pid = int j, burst_left = bursts ! j, wait = 0\<rparr>"
proof -
  from assms have eq: "procs = init_procs_loop bursts (int (length bursts)) 0"
    by (simp add: init_procs_def split: if_splits)
  show "length procs = length bursts" by (simp add: eq init_procs_loop_length)
  show "procs ! j = \<lparr>pid = int j, burst_left = bursts ! j, wait = 0\<rparr>" if "j < length bursts"
    using that init_procs_loop_nth [of 0 j "int (length bursts)" bursts] by (simp add: eq)
qed

lemma run_proc_loop_length:
  "length (run_proc_loop procs plen current run_time i) = length procs"
proof (induction procs plen current run_time i rule: run_proc_loop.induct)
  case (1 procs plen current run_time i)
  then show ?case by (subst run_proc_loop.simps) simp
qed

lemma run_proc_loop_nth:
  "0 \<le> i \<Longrightarrow> plen \<le> int (length procs) \<Longrightarrow> j < length procs \<Longrightarrow>
   run_proc_loop procs plen current run_time i ! j =
     (if i \<le> int j \<and> int j < plen \<and> int j \<noteq> current \<and> 0 < burst_left (procs ! j)
      then (procs ! j)\<lparr>wait := wrap_int (wait (procs ! j) + run_time)\<rparr>
      else procs ! j)"
proof (induction procs plen current run_time i rule: run_proc_loop.induct)
  case (1 procs plen current run_time i)
  show ?case
  proof (cases "i < plen")
    case False
    then show ?thesis by (subst run_proc_loop.simps) simp
  next
    case True
    note lt = True
    have ni: "nat i < length procs" using lt "1.prems" by simp
    show ?thesis
    proof (cases "i = current")
      case True
      have "run_proc_loop procs plen current run_time i =
            run_proc_loop procs plen current run_time (i + 1)"
        using lt True by (subst run_proc_loop.simps) simp
      moreover have "run_proc_loop procs plen current run_time (i + 1) ! j =
        (if i + 1 \<le> int j \<and> int j < plen \<and> int j \<noteq> current \<and> 0 < burst_left (procs ! j)
         then (procs ! j)\<lparr>wait := wrap_int (wait (procs ! j) + run_time)\<rparr> else procs ! j)"
        using "1.IH"(1) [OF lt True] "1.prems" by simp
      ultimately show ?thesis using True by auto
    next
      case False
      note ne = False
      show ?thesis
      proof (cases "0 < burst_left (procs ! nat i)")
        case True
        let ?p = "procs[nat i := (procs ! nat i)\<lparr>wait := wrap_int (wait (procs ! nat i) + run_time)\<rparr>]"
        have "run_proc_loop procs plen current run_time i =
              run_proc_loop ?p plen current run_time (i + 1)"
          using lt ne True by (subst run_proc_loop.simps) simp
        moreover have "run_proc_loop ?p plen current run_time (i + 1) ! j =
          (if i + 1 \<le> int j \<and> int j < plen \<and> int j \<noteq> current \<and> 0 < burst_left (?p ! j)
           then (?p ! j)\<lparr>wait := wrap_int (wait (?p ! j) + run_time)\<rparr> else ?p ! j)"
          using "1.IH"(2) [OF lt ne True] "1.prems" by simp
        ultimately show ?thesis using True ne lt ni "1.prems"
          by (cases "j = nat i") (auto simp: nth_list_update)
      next
        case False
        have "run_proc_loop procs plen current run_time i =
              run_proc_loop procs plen current run_time (i + 1)"
          using lt ne False by (subst run_proc_loop.simps) simp
        moreover have "run_proc_loop procs plen current run_time (i + 1) ! j =
          (if i + 1 \<le> int j \<and> int j < plen \<and> int j \<noteq> current \<and> 0 < burst_left (procs ! j)
           then (procs ! j)\<lparr>wait := wrap_int (wait (procs ! j) + run_time)\<rparr> else procs ! j)"
          using "1.IH"(3) [OF lt ne False] "1.prems" by simp
        ultimately show ?thesis using False ne lt ni "1.prems"
          by (cases "j = nat i") auto
      qed
    qed
  qed
qed

lemma run_proc_length: "length (run_proc procs plen current amount) = length procs"
  by (simp add: run_proc_def Let_def run_proc_loop_length)

lemma run_proc_nth:
  assumes len: "plen = int (length procs)"
    and cur: "0 \<le> current" "current < plen"
    and work: "0 < burst_left (procs ! nat current)"
    and amt: "0 < amount"
    and j: "j < length procs"
  shows "run_proc procs plen current amount ! j =
     (if j = nat current
      then (procs ! j)\<lparr>burst_left := burst_left (procs ! j) - min amount (burst_left (procs ! j))\<rparr>
      else if 0 < burst_left (procs ! j)
      then (procs ! j)\<lparr>wait := wrap_int (wait (procs ! j) + min amount (burst_left (procs ! nat current)))\<rparr>
      else procs ! j)"
proof -
  let ?a = "burst_left (procs ! nat current)"
  let ?rt = "if ?a < amount then ?a else amount"
  let ?p1 = "procs[nat current := (procs ! nat current)\<lparr>burst_left := ?a - ?rt\<rparr>]"
  have rt: "?rt = min amount ?a" by (simp add: min_def)
  have unfold: "run_proc procs plen current amount = run_proc_loop ?p1 plen current ?rt 0"
  proof -
    have "0 < plen" using cur by simp
    then show ?thesis using cur work amt by (simp add: run_proc_def Let_def)
  qed
  have nc: "nat current < length procs" using len cur by simp
  have "run_proc_loop ?p1 plen current ?rt 0 ! j =
     (if 0 \<le> int j \<and> int j < plen \<and> int j \<noteq> current \<and> 0 < burst_left (?p1 ! j)
      then (?p1 ! j)\<lparr>wait := wrap_int (wait (?p1 ! j) + ?rt)\<rparr> else ?p1 ! j)"
    using len j by (intro run_proc_loop_nth) simp_all
  then show ?thesis
    unfolding unfold rt using len cur j nc
    by (cases "j = nat current") (auto simp: nth_list_update)
qed
section \<open>The time-step engine\<close>

text \<open>
  Claim C8. A call of \<open>run_proc\<close> whose \<open>current\<close> is out of range, whose
  \<open>amount\<close> is not positive, or whose current record has no burst left, returns the
  table as it was: no field of any record is written.
\<close>

theorem run_proc_noop:
  "current < 0 \<or> plen \<le> current \<or> amount \<le> 0 \<or> burst_left (procs ! nat current) = 0 \<Longrightarrow>
   run_proc procs plen current amount = procs"
  by (auto simp: run_proc_def Let_def)

theorem run_proc_noop_witness:
  "run_proc [\<lparr>pid = 0, burst_left = 5, wait = 0\<rparr>, \<lparr>pid = 1, burst_left = 0, wait = 2\<rparr>] 2 1 4 =
     [\<lparr>pid = 0, burst_left = 5, wait = 0\<rparr>, \<lparr>pid = 1, burst_left = 0, wait = 2\<rparr>]"
  using run_proc_noop [of 1 2 4 "[\<lparr>pid = 0, burst_left = 5, wait = 0\<rparr>, \<lparr>pid = 1, burst_left = 0, wait = 2\<rparr>]"]
  by simp



section \<open>Choosing the next process\<close>

lemma smod_nonneg: "0 \<le> a \<Longrightarrow> 0 < b \<Longrightarrow> (a::int) smod b = a mod b"
  by (cases "a = 0") (simp_all add: smod_int_alt_def)

lemma has_work_iff:
  "0 \<le> i \<Longrightarrow>
   has_work procs plen i \<longleftrightarrow> (\<exists>j. i \<le> j \<and> j < plen \<and> 0 < burst_left (procs ! nat j))"
proof (induction procs plen i rule: has_work.induct)
  case (1 procs plen i)
  show ?case
  proof (cases "i < plen")
    case False
    then show ?thesis by (subst has_work.simps) auto
  next
    case True
    note lt = True
    show ?thesis
    proof (cases "0 < burst_left (procs ! nat i)")
      case True
      with lt show ?thesis by (subst has_work.simps) auto
    next
      case False
      have "has_work procs plen i = has_work procs plen (i + 1)"
        using lt False by (subst has_work.simps) simp
      also have "\<dots> \<longleftrightarrow> (\<exists>j. i + 1 \<le> j \<and> j < plen \<and> 0 < burst_left (procs ! nat j))"
        using "1.IH" [OF lt False] "1.prems" by simp
      also have "\<dots> \<longleftrightarrow> (\<exists>j. i \<le> j \<and> j < plen \<and> 0 < burst_left (procs ! nat j))"
      proof
        assume "\<exists>j. i + 1 \<le> j \<and> j < plen \<and> 0 < burst_left (procs ! nat j)"
        then obtain j where "i + 1 \<le> j" "j < plen" "0 < burst_left (procs ! nat j)" by blast
        then show "\<exists>j. i \<le> j \<and> j < plen \<and> 0 < burst_left (procs ! nat j)"
          by (intro exI [of _ j]) simp
      next
        assume "\<exists>j. i \<le> j \<and> j < plen \<and> 0 < burst_left (procs ! nat j)"
        then obtain j where j: "i \<le> j" "j < plen" "0 < burst_left (procs ! nat j)" by blast
        with False have "j \<noteq> i" by auto
        with j show "\<exists>j. i + 1 \<le> j \<and> j < plen \<and> 0 < burst_left (procs ! nat j)"
          by (intro exI [of _ j]) simp
      qed
      finally show ?thesis .
    qed
  qed
qed

text \<open>What the circular scan returns, in terms of the offsets it has probed.\<close>

lemma rr_next_scan_cases:
  assumes "0 \<le> start" and "0 < plen" and "0 \<le> offset"
  shows "(rr_next_scan procs plen start offset = - 1 \<and>
          (\<forall>k. offset \<le> k \<and> k < plen \<longrightarrow> burst_left (procs ! nat ((start + k) mod plen)) \<le> 0))
       \<or> (\<exists>k. offset \<le> k \<and> k < plen
             \<and> rr_next_scan procs plen start offset = (start + k) mod plen
             \<and> 0 < burst_left (procs ! nat ((start + k) mod plen))
             \<and> (\<forall>k'. offset \<le> k' \<and> k' < k \<longrightarrow>
                    burst_left (procs ! nat ((start + k') mod plen)) \<le> 0))"
  using assms
proof (induction procs plen start offset rule: rr_next_scan.induct)
  case (1 procs plen start offset)
  show ?case
  proof (cases "offset < plen")
    case False
    then show ?thesis by (subst rr_next_scan.simps) auto
  next
    case True
    note lt = True
    have sm: "(start + offset) smod plen = (start + offset) mod plen"
      using "1.prems" by (simp add: smod_nonneg)
    show ?thesis
    proof (cases "0 < burst_left (procs ! nat ((start + offset) mod plen))")
      case True
      have "rr_next_scan procs plen start offset = (start + offset) mod plen"
        using lt True sm by (subst rr_next_scan.simps) (simp add: Let_def)
      with True lt show ?thesis
        by (intro disjI2 exI [of _ offset]) auto
    next
      case False
      have eq: "rr_next_scan procs plen start offset = rr_next_scan procs plen start (offset + 1)"
        using lt False sm by (subst rr_next_scan.simps) (simp add: Let_def)
      have step: "\<And>k. offset \<le> k \<Longrightarrow> k \<noteq> offset \<Longrightarrow> offset + 1 \<le> k" by simp
      from "1.IH" [OF lt refl _ "1.prems"(1,2)] False sm "1.prems"
      consider
        (none) "rr_next_scan procs plen start (offset + 1) = - 1"
          "\<forall>k. offset + 1 \<le> k \<and> k < plen \<longrightarrow> burst_left (procs ! nat ((start + k) mod plen)) \<le> 0"
      | (found) k where "offset + 1 \<le> k" "k < plen"
          "rr_next_scan procs plen start (offset + 1) = (start + k) mod plen"
          "0 < burst_left (procs ! nat ((start + k) mod plen))"
          "\<forall>k'. offset + 1 \<le> k' \<and> k' < k \<longrightarrow> burst_left (procs ! nat ((start + k') mod plen)) \<le> 0"
        by (auto simp: Let_def)
      then show ?thesis
      proof cases
        case none
        have "\<forall>k. offset \<le> k \<and> k < plen \<longrightarrow> burst_left (procs ! nat ((start + k) mod plen)) \<le> 0"
        proof (intro allI impI)
          fix k assume k: "offset \<le> k \<and> k < plen"
          show "burst_left (procs ! nat ((start + k) mod plen)) \<le> 0"
          proof (cases "k = offset")
            case True with False show ?thesis by simp
          next
            case False with k none(2) show ?thesis by simp
          qed
        qed
        with none(1) eq show ?thesis by simp
      next
        case found
        have "\<forall>k'. offset \<le> k' \<and> k' < k \<longrightarrow> burst_left (procs ! nat ((start + k') mod plen)) \<le> 0"
        proof (intro allI impI)
          fix k' assume k: "offset \<le> k' \<and> k' < k"
          show "burst_left (procs ! nat ((start + k') mod plen)) \<le> 0"
          proof (cases "k' = offset")
            case True with False show ?thesis by simp
          next
            case False with k found(5) show ?thesis by simp
          qed
        qed
        with found eq show ?thesis
          by (intro disjI2 exI [of _ k]) simp
      qed
    qed
  qed
qed

lemma rr_next_unfold:
  assumes "0 < plen" and "0 \<le> current"
  shows "rr_next current procs plen =
     (if has_work procs plen 0 then rr_next_scan procs plen ((current + 1) mod plen) 0 else - 1)"
  using assms by (simp add: rr_next_def smod_nonneg)

lemma rr_next_none_iff:
  assumes "0 < plen" and "0 \<le> current"
  shows "rr_next current procs plen = - 1 \<longleftrightarrow>
         (\<forall>j. 0 \<le> j \<and> j < plen \<longrightarrow> burst_left (procs ! nat j) \<le> 0)"
proof (cases "has_work procs plen 0")
  case False
  then show ?thesis using assms by (simp add: rr_next_unfold has_work_iff) force
next
  case True
  let ?s = "(current + 1) mod plen"
  have s: "0 \<le> ?s" using assms by simp
  from True obtain j where j: "0 \<le> j" "j < plen" "0 < burst_left (procs ! nat j)"
    by (auto simp: has_work_iff)
  have "rr_next_scan procs plen ?s 0 \<noteq> - 1"
  proof
    assume m1: "rr_next_scan procs plen ?s 0 = - 1"
    have nn: "\<And>k. 0 \<le> (?s + k) mod plen" using assms(1) by simp
    have none: "\<forall>k. 0 \<le> k \<and> k < plen \<longrightarrow> burst_left (procs ! nat ((?s + k) mod plen)) \<le> 0"
      using rr_next_scan_cases [OF s assms(1) order_refl, of procs]
    proof
      assume "rr_next_scan procs plen ?s 0 = - 1 \<and>
        (\<forall>k. 0 \<le> k \<and> k < plen \<longrightarrow> burst_left (procs ! nat ((?s + k) mod plen)) \<le> 0)"
      then show ?thesis by simp
    next
      assume "\<exists>k. 0 \<le> k \<and> k < plen
             \<and> rr_next_scan procs plen ?s 0 = (?s + k) mod plen
             \<and> 0 < burst_left (procs ! nat ((?s + k) mod plen))
             \<and> (\<forall>k'. 0 \<le> k' \<and> k' < k \<longrightarrow>
                    burst_left (procs ! nat ((?s + k') mod plen)) \<le> 0)"
      then obtain k where "rr_next_scan procs plen ?s 0 = (?s + k) mod plen" by blast
      with m1 nn [of k] show ?thesis by simp
    qed
    let ?k = "(j - ?s) mod plen"
    have "0 \<le> ?k \<and> ?k < plen" using assms by simp
    moreover have "(?s + ?k) mod plen = j"
      using j by (simp add: mod_add_right_eq)
    ultimately have "burst_left (procs ! nat j) \<le> 0" using none by metis
    with j show False by simp
  qed
  moreover have "\<not> (\<forall>j. 0 \<le> j \<and> j < plen \<longrightarrow> burst_left (procs ! nat j) \<le> 0)"
    using j by force
  ultimately show ?thesis using True assms by (simp add: rr_next_unfold)
qed

lemma rr_next_found:
  assumes "0 < plen" and "0 \<le> current" and "rr_next current procs plen \<noteq> - 1"
  shows "\<exists>k. 0 \<le> k \<and> k < plen
           \<and> rr_next current procs plen = ((current + 1) mod plen + k) mod plen
           \<and> 0 < burst_left (procs ! nat (rr_next current procs plen))
           \<and> (\<forall>k'. 0 \<le> k' \<and> k' < k \<longrightarrow>
                  burst_left (procs ! nat (((current + 1) mod plen + k') mod plen)) \<le> 0)"
proof -
  let ?s = "(current + 1) mod plen"
  have s: "0 \<le> ?s" using assms by simp
  from assms have hw: "has_work procs plen 0"
    by (auto simp: rr_next_unfold split: if_splits)
  then have eq: "rr_next current procs plen = rr_next_scan procs plen ?s 0"
    using assms by (simp add: rr_next_unfold)
  show ?thesis
    using rr_next_scan_cases [OF s assms(1), of 0 procs] assms(3)
    unfolding eq by auto
qed



section \<open>What a call of \<open>run_proc\<close> preserves\<close>






lemma init_procs_fields:
  assumes "init_procs bursts (int (length bursts)) = Some procs"
  shows "map burst_left procs = bursts" and "map wait procs = replicate (length bursts) 0"
    and "map pid procs = map int [0..<length bursts]"
  using init_procs_Some [OF assms]
  by (auto intro!: nth_equalityI)










section \<open>First come, first served\<close>

text \<open>Records without work are passed over.\<close>

lemma fcfs_run_loop_skip:
  assumes "i \<le> m" and "m \<le> plen"
    and "\<forall>j. i \<le> j \<and> j < m \<longrightarrow> burst_left (procs ! nat j) \<le> 0"
  shows "fcfs_run_loop procs plen i total_time = fcfs_run_loop procs plen m total_time"
  using assms
proof (induction "nat (m - i)" arbitrary: i)
  case 0
  then show ?case by simp
next
  case (Suc n)
  then have lt: "i < m" "i < plen" by simp_all
  have "burst_left (procs ! nat i) \<le> 0" using Suc.prems(3) lt by simp
  then have "fcfs_run_loop procs plen i total_time = fcfs_run_loop procs plen (i + 1) total_time"
    using lt by (subst fcfs_run_loop.simps) (simp add: Let_def)
  also have "\<dots> = fcfs_run_loop procs plen m total_time"
    using Suc.hyps Suc.prems lt by (intro Suc.hyps(1)) simp_all
  finally show ?case .
qed

text \<open>
  The loop from index \<open>i\<close> on, when every record before \<open>i\<close> is finished: each
  live record from \<open>i\<close> on is run to completion, and has waited for the live records
  between \<open>i\<close> and itself. The total and the waits are sums of \<open>int\<close>s, wrapped.
\<close>

lemma fcfs_run_loop_spec:
  assumes "plen = int (length procs)" and "0 \<le> i" and "i \<le> plen"
    and "\<forall>j < nat i. burst_left (procs ! j) \<le> 0"
    and "- 2147483648 \<le> total_time \<and> total_time \<le> 2147483647"
    and "\<forall>j < length procs. - 2147483648 \<le> wait (procs ! j) \<and> wait (procs ! j) \<le> 2147483647"
  shows "length (fst (fcfs_run_loop procs plen i total_time)) = length procs
    \<and> snd (fcfs_run_loop procs plen i total_time) =
        wrap_int (total_time + (\<Sum>k = nat i..<length procs. max 0 (burst_left (procs ! k))))
    \<and> (\<forall>j < length procs.
          pid (fst (fcfs_run_loop procs plen i total_time) ! j) = pid (procs ! j)
        \<and> burst_left (fst (fcfs_run_loop procs plen i total_time) ! j) =
            (if nat i \<le> j \<and> 0 < burst_left (procs ! j) then 0 else burst_left (procs ! j))
        \<and> wait (fst (fcfs_run_loop procs plen i total_time) ! j) =
            wrap_int (wait (procs ! j) +
              (if nat i \<le> j \<and> 0 < burst_left (procs ! j)
               then (\<Sum>k = nat i..<j. max 0 (burst_left (procs ! k))) else 0)))"
  using assms
proof (induction procs plen i total_time rule: fcfs_run_loop.induct)
  case (1 procs plen i total_time)
  note len = "1.prems"(1)
  have wt: "wrap_int total_time = total_time"
    using "1.prems"(5) by (intro wrap_int_id) simp_all
  have ww: "wrap_int (wait (procs ! j)) = wait (procs ! j)" if "j < length procs" for j
    using "1.prems"(6) that by (intro wrap_int_id) simp_all
  show ?case
  proof (cases "i < plen")
    case False
    with "1.prems" have "nat i = length procs" by simp
    moreover have "fcfs_run_loop procs plen i total_time = (procs, total_time)"
      using False by (subst fcfs_run_loop.simps) simp
    ultimately show ?thesis by (simp add: wt ww)
  next
    case True
    note lt = True
    have ni: "nat i < length procs" using lt "1.prems" by simp
    have suc: "nat (i + 1) = Suc (nat i)" using "1.prems"(2) by simp
    show ?thesis
    proof (cases "burst_left (procs ! nat i) \<le> 0")
      case True
      have eq: "fcfs_run_loop procs plen i total_time = fcfs_run_loop procs plen (i + 1) total_time"
        using lt True by (subst fcfs_run_loop.simps) (simp add: Let_def)
      have done': "\<forall>j < nat (i + 1). burst_left (procs ! j) \<le> 0"
        using "1.prems"(4) True by (simp add: suc less_Suc_eq)
      have ih: "length (fst (fcfs_run_loop procs plen (i + 1) total_time)) = length procs
        \<and> snd (fcfs_run_loop procs plen (i + 1) total_time) =
            wrap_int (total_time + (\<Sum>k = Suc (nat i)..<length procs. max 0 (burst_left (procs ! k))))
        \<and> (\<forall>j < length procs.
              pid (fst (fcfs_run_loop procs plen (i + 1) total_time) ! j) = pid (procs ! j)
            \<and> burst_left (fst (fcfs_run_loop procs plen (i + 1) total_time) ! j) =
                (if Suc (nat i) \<le> j \<and> 0 < burst_left (procs ! j) then 0 else burst_left (procs ! j))
            \<and> wait (fst (fcfs_run_loop procs plen (i + 1) total_time) ! j) =
                wrap_int (wait (procs ! j) +
                  (if Suc (nat i) \<le> j \<and> 0 < burst_left (procs ! j)
                   then (\<Sum>k = Suc (nat i)..<j. max 0 (burst_left (procs ! k))) else 0)))"
        using "1.IH"(1) [OF lt refl True len _ _ done' "1.prems"(5,6)] lt "1.prems"(2)
        by (simp add: suc)
      have s1: "(\<Sum>k = nat i..<length procs. max 0 (burst_left (procs ! k))) =
                (\<Sum>k = Suc (nat i)..<length procs. max 0 (burst_left (procs ! k)))"
        using ni True by (simp add: sum.atLeast_Suc_lessThan)
      have s2: "(\<Sum>k = nat i..<j. max 0 (burst_left (procs ! k))) =
                (\<Sum>k = Suc (nat i)..<j. max 0 (burst_left (procs ! k)))" if "Suc (nat i) \<le> j" for j
        using that True by (simp add: sum.atLeast_Suc_lessThan)
      show ?thesis
        unfolding eq using ih True s1 s2
        by (auto simp: not_less_eq_eq le_Suc_eq)
    next
      case False
      then have pos: "0 < burst_left (procs ! nat i)" by simp
      let ?b = "burst_left (procs ! nat i)"
      let ?p = "run_proc procs plen i ?b"
      let ?t = "wrap_int (total_time + ?b)"
      have eq: "fcfs_run_loop procs plen i total_time = fcfs_run_loop ?p plen (i + 1) ?t"
        using lt False by (subst fcfs_run_loop.simps) (simp add: Let_def)
      have plen': "plen = int (length ?p)" using len by (simp add: run_proc_length)
      have nth: "?p ! j =
         (if j = nat i then (procs ! j)\<lparr>burst_left := 0\<rparr>
          else if 0 < burst_left (procs ! j)
          then (procs ! j)\<lparr>wait := wrap_int (wait (procs ! j) + ?b)\<rparr>
          else procs ! j)" if "j < length procs" for j
        using run_proc_nth [OF len "1.prems"(2) lt pos pos that] by simp
      have done': "\<forall>j < nat (i + 1). burst_left (?p ! j) \<le> 0"
      proof (intro allI impI)
        fix j assume "j < nat (i + 1)"
        then have "j < nat i \<or> j = nat i" by (auto simp: suc)
        moreover have "j < length procs" using \<open>j < nat (i + 1)\<close> ni by (simp add: suc)
        ultimately show "burst_left (?p ! j) \<le> 0"
          using "1.prems"(4) by (auto simp: nth)
      qed
      have range_t: "- 2147483648 \<le> ?t \<and> ?t \<le> 2147483647"
        using wrap_int_range [of "total_time + ?b"] by simp
      have range_w: "\<forall>j < length ?p. - 2147483648 \<le> wait (?p ! j) \<and> wait (?p ! j) \<le> 2147483647"
      proof (intro allI impI)
        fix j assume "j < length ?p"
        then have j: "j < length procs" by (simp add: run_proc_length)
        show "- 2147483648 \<le> wait (?p ! j) \<and> wait (?p ! j) \<le> 2147483647"
          using "1.prems"(6) j wrap_int_range [of "wait (procs ! j) + ?b"] by (simp add: nth)
      qed
      have ih: "length (fst (fcfs_run_loop ?p plen (i + 1) ?t)) = length procs
        \<and> snd (fcfs_run_loop ?p plen (i + 1) ?t) =
            wrap_int (total_time + ?b + (\<Sum>k = Suc (nat i)..<length procs. max 0 (burst_left (?p ! k))))
        \<and> (\<forall>j < length procs.
              pid (fst (fcfs_run_loop ?p plen (i + 1) ?t) ! j) = pid (?p ! j)
            \<and> burst_left (fst (fcfs_run_loop ?p plen (i + 1) ?t) ! j) =
                (if Suc (nat i) \<le> j \<and> 0 < burst_left (?p ! j) then 0 else burst_left (?p ! j))
            \<and> wait (fst (fcfs_run_loop ?p plen (i + 1) ?t) ! j) =
                wrap_int (wait (?p ! j) +
                  (if Suc (nat i) \<le> j \<and> 0 < burst_left (?p ! j)
                   then (\<Sum>k = Suc (nat i)..<j. max 0 (burst_left (?p ! k))) else 0)))"
        using "1.IH"(2) [OF lt refl False plen' _ _ done' range_t range_w] lt "1.prems"(2)
        by (simp add: suc run_proc_length wrap_int_add_left)
      have b_later: "burst_left (?p ! k) = burst_left (procs ! k)" if "Suc (nat i) \<le> k" "k < length procs" for k
        using that by (simp add: nth)
      have sum_later: "(\<Sum>k = Suc (nat i)..<n. max 0 (burst_left (?p ! k))) =
                       (\<Sum>k = Suc (nat i)..<n. max 0 (burst_left (procs ! k)))" if "n \<le> length procs" for n
        using that by (intro sum.cong) (simp_all add: b_later)
      have s1: "(\<Sum>k = nat i..<length procs. max 0 (burst_left (procs ! k))) =
                ?b + (\<Sum>k = Suc (nat i)..<length procs. max 0 (burst_left (procs ! k)))"
        using ni pos by (simp add: sum.atLeast_Suc_lessThan)
      have s2: "(\<Sum>k = nat i..<j. max 0 (burst_left (procs ! k))) =
                ?b + (\<Sum>k = Suc (nat i)..<j. max 0 (burst_left (procs ! k)))" if "Suc (nat i) \<le> j" for j
        using that pos by (simp add: sum.atLeast_Suc_lessThan)
      have "length (fst (fcfs_run_loop ?p plen (i + 1) ?t)) = length procs"
        using ih by simp
      moreover have "snd (fcfs_run_loop ?p plen (i + 1) ?t) =
        wrap_int (total_time + (\<Sum>k = nat i..<length procs. max 0 (burst_left (procs ! k))))"
        using ih by (simp add: s1 sum_later add.assoc)
      moreover have "pid (fst (fcfs_run_loop ?p plen (i + 1) ?t) ! j) = pid (procs ! j)
        \<and> burst_left (fst (fcfs_run_loop ?p plen (i + 1) ?t) ! j) =
            (if nat i \<le> j \<and> 0 < burst_left (procs ! j) then 0 else burst_left (procs ! j))
        \<and> wait (fst (fcfs_run_loop ?p plen (i + 1) ?t) ! j) =
            wrap_int (wait (procs ! j) +
              (if nat i \<le> j \<and> 0 < burst_left (procs ! j)
               then (\<Sum>k = nat i..<j. max 0 (burst_left (procs ! k))) else 0))" if j: "j < length procs" for j
      proof -
        from ih j have f:
          "pid (fst (fcfs_run_loop ?p plen (i + 1) ?t) ! j) = pid (?p ! j)"
          "burst_left (fst (fcfs_run_loop ?p plen (i + 1) ?t) ! j) =
                (if Suc (nat i) \<le> j \<and> 0 < burst_left (?p ! j) then 0 else burst_left (?p ! j))"
          "wait (fst (fcfs_run_loop ?p plen (i + 1) ?t) ! j) =
                wrap_int (wait (?p ! j) +
                  (if Suc (nat i) \<le> j \<and> 0 < burst_left (?p ! j)
                   then (\<Sum>k = Suc (nat i)..<j. max 0 (burst_left (?p ! k))) else 0))"
          by simp_all
        consider (before) "j < nat i" | (at) "j = nat i" | (after) "Suc (nat i) \<le> j" by linarith
        then show ?thesis
        proof cases
          case before
          then have "burst_left (procs ! j) \<le> 0" using "1.prems"(4) by simp
          then show ?thesis using before j f by (simp add: nth)
        next
          case at
          then show ?thesis using j pos f by (simp add: nth)
        next
          case after
          have "j \<le> length procs" using j by simp
          then show ?thesis using after j sum_later [of j] s2 [OF after] f
            by (simp add: nth wrap_int_add_left add.assoc)
        qed
      qed
      ultimately show ?thesis unfolding eq by simp
    qed
  qed
qed
lemma sum_nth_take:
  "j \<le> length xs \<Longrightarrow> (\<Sum>k = 0..<j. xs ! k) = sum_list (take j (xs :: int list))"
  by (simp add: sum_list_sum_nth)

lemma sum_max_nonneg:
  assumes "\<forall>b \<in> set bursts. (0::int) \<le> b" and "j \<le> length bursts"
  shows "(\<Sum>k = 0..<j. max 0 (bursts ! k)) = sum_list (take j bursts)"
proof -
  have "(\<Sum>k = 0..<j. max 0 (bursts ! k)) = (\<Sum>k = 0..<j. bursts ! k)"
    using assms by (intro sum.cong) (simp_all add: max_def)
  then show ?thesis using assms(2) by (simp add: sum_nth_take)
qed

lemma fcfs_run_created:
  assumes init: "init_procs bursts (int (length bursts)) = Some procs"
    and ne: "bursts \<noteq> []"
    and nonneg: "\<forall>b \<in> set bursts. 0 \<le> b"
  shows "length (fst (fcfs_run procs (int (length bursts)))) = length bursts"
    and "snd (fcfs_run procs (int (length bursts))) = wrap_int (sum_list bursts)"
    and "j < length bursts \<Longrightarrow> pid (fst (fcfs_run procs (int (length bursts))) ! j) = int j"
    and "j < length bursts \<Longrightarrow> burst_left (fst (fcfs_run procs (int (length bursts))) ! j) = 0"
    and "j < length bursts \<Longrightarrow> wait (fst (fcfs_run procs (int (length bursts))) ! j) =
           wrap_int (if 0 < bursts ! j then sum_list (take j bursts) else 0)"
proof -
  let ?plen = "int (length bursts)"
  note flds = init_procs_Some [OF init]
  have len: "?plen = int (length procs)" using flds(1) by simp
  have run: "fcfs_run procs ?plen = fcfs_run_loop procs ?plen 0 0"
    using ne by (simp add: fcfs_run_def)
  have bl: "burst_left (procs ! k) = bursts ! k" if "k < length bursts" for k
    using flds(2) [OF that] by simp
  have sums: "(\<Sum>k = 0..<n. max 0 (burst_left (procs ! k))) = sum_list (take n bursts)"
    if "n \<le> length bursts" for n
  proof -
    have "(\<Sum>k = 0..<n. max 0 (burst_left (procs ! k))) = (\<Sum>k = 0..<n. max 0 (bursts ! k))"
      using that by (intro sum.cong) (simp_all add: bl)
    then show ?thesis using sum_max_nonneg [OF nonneg that] by simp
  qed
  have range_w: "\<forall>j < length procs. - 2147483648 \<le> wait (procs ! j) \<and> wait (procs ! j) \<le> 2147483647"
    using flds by simp
  have range_t: "- 2147483648 \<le> (0 :: int) \<and> (0 :: int) \<le> 2147483647" by simp
  note spec = fcfs_run_loop_spec [OF len order_refl _ _ range_t range_w, simplified, folded run]
  show "length (fst (fcfs_run procs ?plen)) = length bursts"
    using spec flds(1) by simp
  show "snd (fcfs_run procs ?plen) = wrap_int (sum_list bursts)"
    using spec sums [of "length bursts"] flds(1) by simp
  show "pid (fst (fcfs_run procs ?plen) ! j) = int j" if "j < length bursts"
    using spec that flds by simp
  show "burst_left (fst (fcfs_run procs ?plen) ! j) = 0" if "j < length bursts"
  proof -
    have "0 \<le> bursts ! j" using nonneg that by simp
    then show ?thesis using spec that flds by auto
  qed
  show "wait (fst (fcfs_run procs ?plen) ! j) =
        wrap_int (if 0 < bursts ! j then sum_list (take j bursts) else 0)"
    if "j < length bursts"
    using spec that flds sums [of j] by simp
qed
section \<open>Round robin\<close>

lemma rr_first_cases:
  assumes "0 \<le> i"
  shows "(rr_first procs plen i = - 1
          \<and> (\<forall>j. i \<le> j \<and> j < plen \<longrightarrow> burst_left (procs ! nat j) \<le> 0))
       \<or> (i \<le> rr_first procs plen i \<and> rr_first procs plen i < plen
          \<and> 0 < burst_left (procs ! nat (rr_first procs plen i))
          \<and> (\<forall>j. i \<le> j \<and> j < rr_first procs plen i \<longrightarrow> burst_left (procs ! nat j) \<le> 0))"
  using assms
proof (induction procs plen i rule: rr_first.induct)
  case (1 procs plen i)
  show ?case
  proof (cases "i < plen")
    case False
    then show ?thesis by (subst rr_first.simps) simp
  next
    case True
    note lt = True
    show ?thesis
    proof (cases "0 < burst_left (procs ! nat i)")
      case True
      then have "rr_first procs plen i = i" using lt by (subst rr_first.simps) simp
      then show ?thesis using lt True by simp
    next
      case False
      have eq: "rr_first procs plen i = rr_first procs plen (i + 1)"
        using lt False by (subst rr_first.simps) simp
      have here: "burst_left (procs ! nat i) \<le> 0" using False by simp
      have widen: "burst_left (procs ! nat j) \<le> 0"
        if "\<forall>j. i + 1 \<le> j \<and> j < m \<longrightarrow> burst_left (procs ! nat j) \<le> 0" "i \<le> j" "j < m" for j m
      proof (cases "j = i")
        case True with here show ?thesis by simp
      next
        case False with that show ?thesis by simp
      qed
      from "1.IH" [OF lt False] "1.prems"
      consider (none) "rr_first procs plen (i + 1) = - 1"
          "\<forall>j. i + 1 \<le> j \<and> j < plen \<longrightarrow> burst_left (procs ! nat j) \<le> 0"
        | (found) "i + 1 \<le> rr_first procs plen (i + 1)" "rr_first procs plen (i + 1) < plen"
          "0 < burst_left (procs ! nat (rr_first procs plen (i + 1)))"
          "\<forall>j. i + 1 \<le> j \<and> j < rr_first procs plen (i + 1) \<longrightarrow> burst_left (procs ! nat j) \<le> 0"
        by fastforce
      then show ?thesis
      proof cases
        case none
        then show ?thesis unfolding eq using widen [OF none(2)] by simp
      next
        case found
        then show ?thesis unfolding eq using widen [OF found(4)] by simp
      qed
    qed
  qed
qed




section \<open>The two drivers on a created table\<close>






text \<open>
  Claim C4, amended. On the table created from a non-empty sequence of strictly positive
  bursts, \<open>fcfs_run\<close> leaves in record \<open>i\<close> the wait \<open>burst[0] + \<dots> + burst[i-1]\<close>,
  the sum of the first \<open>i\<close> bursts, when that sum fits in an \<open>int\<close>; for \<open>i = 0\<close>
  that is \<open>0\<close>.
\<close>

theorem fcfs_run_wait:
  assumes "bursts \<noteq> []" and "\<forall>b \<in> set bursts. 0 < b"
    and "init_procs bursts (int (length bursts)) = Some procs"
    and "i < length bursts"
    and "sum_list (take i bursts) \<le> 2147483647"
  shows "wait (fst (fcfs_run procs (int (length bursts))) ! i) = sum_list (take i bursts)"
proof -
  have nonneg: "\<forall>b \<in> set bursts. 0 \<le> b" using assms(2) by force
  have "\<forall>b \<in> set (take i bursts). 0 \<le> b" using nonneg by (auto dest: in_set_takeD)
  then have "0 \<le> sum_list (take i bursts)" by (intro sum_list_nonneg) simp
  then have fits: "wrap_int (sum_list (take i bursts)) = sum_list (take i bursts)"
    using assms(5) by (intro wrap_int_id) simp_all
  have "0 < bursts ! i" using assms(2,4) by simp
  then show ?thesis
    using fcfs_run_created(5) [OF assms(3,1) nonneg assms(4)] fits by simp
qed

theorem fcfs_run_wait_witness:
  "wait (fst (fcfs_run [\<lparr>pid = 0, burst_left = 5, wait = 0\<rparr>, \<lparr>pid = 1, burst_left = 3, wait = 0\<rparr>,
                  \<lparr>pid = 2, burst_left = 8, wait = 0\<rparr>] 3) ! 2) = 8"
proof -
  let ?procs = "[\<lparr>pid = 0, burst_left = 5, wait = 0\<rparr>, \<lparr>pid = 1, burst_left = 3, wait = 0\<rparr>,
                 \<lparr>pid = 2, burst_left = 8, wait = 0\<rparr>]"
  have ne: "[5 :: int, 3, 8] \<noteq> []" by simp
  have pos: "\<forall>b \<in> set [5 :: int, 3, 8]. 0 < b" by simp
  have init: "init_procs [5, 3, 8] (int (length [5 :: int, 3, 8])) = Some ?procs"
    by (simp add: init_procs_def init_procs_loop.simps)
  have i: "2 < length [5 :: int, 3, 8]" by simp
  have fits: "sum_list (take 2 [5 :: int, 3, 8]) \<le> 2147483647" by simp
  from fcfs_run_wait [OF ne pos init i fits] show ?thesis by simp
qed

text \<open>
  Without the bound the wait is not the sum: for the bursts \<open>2147483647, 1, 1\<close> the
  first two add up to \<open>2147483648\<close>, and the wait of the third record is the least
  \<open>int\<close>.
\<close>

theorem fcfs_run_wait_counterexample:
  "init_procs [2147483647, 1, 1] 3 =
     Some [\<lparr>pid = 0, burst_left = 2147483647, wait = 0\<rparr>, \<lparr>pid = 1, burst_left = 1, wait = 0\<rparr>,
           \<lparr>pid = 2, burst_left = 1, wait = 0\<rparr>]
   \<and> wait (fst (fcfs_run [\<lparr>pid = 0, burst_left = 2147483647, wait = 0\<rparr>,
                          \<lparr>pid = 1, burst_left = 1, wait = 0\<rparr>,
                          \<lparr>pid = 2, burst_left = 1, wait = 0\<rparr>] 3) ! 2) = - 2147483648
   \<and> sum_list (take 2 [2147483647, 1, 1 :: int]) = 2147483648"
proof (intro conjI)
  show "init_procs [2147483647, 1, 1] 3 =
     Some [\<lparr>pid = 0, burst_left = 2147483647, wait = 0\<rparr>, \<lparr>pid = 1, burst_left = 1, wait = 0\<rparr>,
           \<lparr>pid = 2, burst_left = 1, wait = 0\<rparr>]"
    by code_simp
  show "wait (fst (fcfs_run [\<lparr>pid = 0, burst_left = 2147483647, wait = 0\<rparr>,
                          \<lparr>pid = 1, burst_left = 1, wait = 0\<rparr>,
                          \<lparr>pid = 2, burst_left = 1, wait = 0\<rparr>] 3) ! 2) = - 2147483648"
    by code_simp
  show "sum_list (take 2 [2147483647, 1, 1 :: int]) = 2147483648" by simp
qed
text \<open>
  Claim C10. When the quantum is not positive, or \<open>plen\<close> is not positive, or no
  record below \<open>plen\<close> has \<open>burst_left > 0\<close>, \<open>rr_run\<close> returns \<open>0\<close> and the table
  is as it was.
\<close>

theorem rr_run_nothing_to_do:
  "quantum \<le> 0 \<or> plen \<le> 0 \<or> (\<forall>j. 0 \<le> j \<and> j < plen \<longrightarrow> burst_left (procs ! nat j) \<le> 0) \<Longrightarrow>
   rr_run procs plen quantum = Some (procs, 0)"
proof (cases "quantum \<le> 0 \<or> plen \<le> 0")
  case True
  then show ?thesis by (auto simp: rr_run_def)
next
  case False
  assume "quantum \<le> 0 \<or> plen \<le> 0 \<or> (\<forall>j. 0 \<le> j \<and> j < plen \<longrightarrow> burst_left (procs ! nat j) \<le> 0)"
  with False have none: "\<forall>j. 0 \<le> j \<and> j < plen \<longrightarrow> burst_left (procs ! nat j) \<le> 0" by blast
  have "rr_first procs plen 0 = - 1"
  proof (rule ccontr)
    assume "rr_first procs plen 0 \<noteq> - 1"
    with rr_first_cases [of 0 procs plen]
    have "0 \<le> rr_first procs plen 0 \<and> rr_first procs plen 0 < plen
          \<and> 0 < burst_left (procs ! nat (rr_first procs plen 0))" by simp
    with none show False by force
  qed
  then show ?thesis by (simp add: rr_run_def)
qed

theorem rr_run_nothing_to_do_witness:
  "rr_run [\<lparr>pid = 0, burst_left = 0, wait = 3\<rparr>, \<lparr>pid = 1, burst_left = 0, wait = 0\<rparr>] 2 4 =
     Some ([\<lparr>pid = 0, burst_left = 0, wait = 3\<rparr>, \<lparr>pid = 1, burst_left = 0, wait = 0\<rparr>], 0)
   \<and> rr_run [\<lparr>pid = 0, burst_left = 5, wait = 0\<rparr>] 1 0 = Some ([\<lparr>pid = 0, burst_left = 5, wait = 0\<rparr>], 0)"
proof -
  let ?procs = "[\<lparr>pid = 0, burst_left = 0, wait = 3\<rparr>, \<lparr>pid = 1, burst_left = 0, wait = 0\<rparr>]"
  have "\<forall>j. 0 \<le> j \<and> j < 2 \<longrightarrow> burst_left (?procs ! nat j) \<le> 0"
  proof (intro allI impI)
    fix j :: int assume "0 \<le> j \<and> j < 2"
    then have "j = 0 \<or> j = 1" by auto
    then show "burst_left (?procs ! nat j) \<le> 0" by auto
  qed
  then have "rr_run ?procs 2 4 = Some (?procs, 0)"
    using rr_run_nothing_to_do [of 4 2 ?procs] by blast
  moreover have "rr_run [\<lparr>pid = 0, burst_left = 5, wait = 0\<rparr>] 1 0 = Some ([\<lparr>pid = 0, burst_left = 5, wait = 0\<rparr>], 0)"
    using rr_run_nothing_to_do [of 0 1 "[\<lparr>pid = 0, burst_left = 5, wait = 0\<rparr>]"] by simp
  ultimately show ?thesis by (rule conjI)
qed
section \<open>The calls the drivers make\<close>

text \<open>The drivers that record their calls run as the drivers themselves do.\<close>

lemma fcfs_run_loop_calls_plain:
  "(fst (fcfs_run_loop_calls procs plen i total_time calls),
    fst (snd (fcfs_run_loop_calls procs plen i total_time calls))) =
   fcfs_run_loop procs plen i total_time"
proof (induction procs plen i total_time calls rule: fcfs_run_loop_calls.induct)
  case (1 procs plen i total_time calls)
  show ?case
  proof (cases "i < plen")
    case False
    then show ?thesis
      by (subst fcfs_run_loop_calls.simps, subst (2) fcfs_run_loop_calls.simps,
          subst fcfs_run_loop.simps) simp
  next
    case True
    note lt = True
    show ?thesis
    proof (cases "burst_left (procs ! nat i) \<le> 0")
      case True
      have "fcfs_run_loop_calls procs plen i total_time calls =
            fcfs_run_loop_calls procs plen (i + 1) total_time calls"
        using lt True by (subst fcfs_run_loop_calls.simps) (simp add: Let_def)
      moreover have "fcfs_run_loop procs plen i total_time = fcfs_run_loop procs plen (i + 1) total_time"
        using lt True by (subst fcfs_run_loop.simps) (simp add: Let_def)
      ultimately show ?thesis using "1.IH"(1) [OF lt refl True] by simp
    next
      case False
      let ?b = "burst_left (procs ! nat i)"
      have "fcfs_run_loop_calls procs plen i total_time calls =
            fcfs_run_loop_calls (run_proc procs plen i ?b) plen (i + 1) (wrap_int (total_time + ?b)) (calls @ [(i, ?b)])"
        using lt False by (subst fcfs_run_loop_calls.simps) (simp add: Let_def)
      moreover have "fcfs_run_loop procs plen i total_time =
            fcfs_run_loop (run_proc procs plen i ?b) plen (i + 1) (wrap_int (total_time + ?b))"
        using lt False by (subst fcfs_run_loop.simps) (simp add: Let_def)
      ultimately show ?thesis using "1.IH"(2) [OF lt refl False] by simp
    qed
  qed
qed

lemma fcfs_run_calls_plain:
  "(fst (fcfs_run_calls procs plen), fst (snd (fcfs_run_calls procs plen))) = fcfs_run procs plen"
  by (simp add: fcfs_run_calls_def fcfs_run_def fcfs_run_loop_calls_plain)

lemma rr_run_loop_calls_plain:
  "rr_run_loop_calls procs plen quantum current total_time calls = Some r \<Longrightarrow>
   rr_run_loop procs plen quantum current total_time = Some (fst r, fst (snd r))"
proof (induction rule: rr_run_loop_calls.raw_induct [rotated 1, consumes 1])
  case (1 loop procs plen quantum current total_time calls r)
  let ?rem = "burst_left (procs ! nat current)"
  let ?rt = "if ?rem < quantum then ?rem else quantum"
  let ?p1 = "if 0 < ?rem then run_proc procs plen current ?rt else procs"
  let ?t1 = "if 0 < ?rem then wrap_int (total_time + ?rt) else total_time"
  let ?c1 = "if 0 < ?rem then calls @ [(current, ?rt)] else calls"
  let ?next = "rr_next current ?p1 plen"
  have calls: "(if ?next = - 1 then Some (?p1, ?t1, ?c1)
                else loop ?p1 plen quantum ?next ?t1 ?c1) = Some r"
    using "1.hyps" by (simp only: Let_def)
  have plain: "rr_run_loop procs plen quantum current total_time =
               (if ?next = - 1 then Some (?p1, ?t1) else rr_run_loop ?p1 plen quantum ?next ?t1)"
    by (subst rr_run_loop.simps) (simp only: Let_def)
  show ?case
  proof (cases "?next = - 1")
    case True
    from calls have "r = (?p1, ?t1, ?c1)"
      by (simp only: True simp_thms if_True option.inject)
    moreover from plain have "rr_run_loop procs plen quantum current total_time = Some (?p1, ?t1)"
      by (simp only: True simp_thms if_True)
    ultimately show ?thesis by (simp only: fst_conv snd_conv)
  next
    case False
    from calls have "loop ?p1 plen quantum ?next ?t1 ?c1 = Some r"
      by (simp only: False simp_thms if_False)
    then have "rr_run_loop ?p1 plen quantum ?next ?t1 = Some (fst r, fst (snd r))"
      by (rule "1.IH")
    moreover from plain have "rr_run_loop procs plen quantum current total_time =
                   rr_run_loop ?p1 plen quantum ?next ?t1"
      by (simp only: False simp_thms if_False)
    ultimately show ?thesis by (simp only:)
  qed
qed

lemma rr_run_calls_plain:
  "rr_run_calls procs plen quantum = Some r \<Longrightarrow>
   rr_run procs plen quantum = Some (fst r, fst (snd r))"
  by (auto simp: rr_run_calls_def rr_run_def Let_def rr_run_loop_calls_plain split: if_splits)


lemma rr_run_loop_calls_step:
  assumes "0 < burst_left (procs ! nat current)"
  shows "rr_run_loop_calls procs plen quantum current total_time calls =
    (if rr_next current (run_proc procs plen current (min quantum (burst_left (procs ! nat current)))) plen = - 1
     then Some (run_proc procs plen current (min quantum (burst_left (procs ! nat current))),
                wrap_int (total_time + min quantum (burst_left (procs ! nat current))),
                calls @ [(current, min quantum (burst_left (procs ! nat current)))])
     else rr_run_loop_calls (run_proc procs plen current (min quantum (burst_left (procs ! nat current)))) plen quantum
            (rr_next current (run_proc procs plen current (min quantum (burst_left (procs ! nat current)))) plen)
            (wrap_int (total_time + min quantum (burst_left (procs ! nat current))))
            (calls @ [(current, min quantum (burst_left (procs ! nat current)))]))"
  using assms by (subst rr_run_loop_calls.simps) (simp add: Let_def min_def)






section \<open>Round robin with a quantum that covers every burst\<close>

lemma fcfs_run_loop_calls_skip:
  assumes "i \<le> m" and "m \<le> plen"
    and "\<forall>j. i \<le> j \<and> j < m \<longrightarrow> burst_left (procs ! nat j) \<le> 0"
  shows "fcfs_run_loop_calls procs plen i total_time calls =
         fcfs_run_loop_calls procs plen m total_time calls"
  using assms
proof (induction "nat (m - i)" arbitrary: i)
  case 0
  then show ?case by simp
next
  case (Suc n)
  then have lt: "i < m" "i < plen" by simp_all
  have "burst_left (procs ! nat i) \<le> 0" using Suc.prems(3) lt by simp
  then have "fcfs_run_loop_calls procs plen i total_time calls =
             fcfs_run_loop_calls procs plen (i + 1) total_time calls"
    using lt by (subst fcfs_run_loop_calls.simps) (simp add: Let_def)
  also have "\<dots> = fcfs_run_loop_calls procs plen m total_time calls"
    using Suc.hyps Suc.prems lt by (intro Suc.hyps(1)) simp_all
  finally show ?case .
qed

lemma fcfs_run_loop_calls_end:
  "fcfs_run_loop_calls procs plen plen total_time calls = (procs, total_time, calls)"
  by (subst fcfs_run_loop_calls.simps) simp

text \<open>
  When no record up to \<open>current\<close> has work, the circular scan does not wrap around:
  the next record is the first live one after \<open>current\<close>.
\<close>

lemma rr_next_after:
  assumes plen: "0 < plen" and cur: "0 \<le> current" "current < plen"
    and before: "\<forall>j. 0 \<le> j \<and> j \<le> current \<longrightarrow> burst_left (procs ! nat j) \<le> 0"
    and found: "rr_next current procs plen \<noteq> - 1"
  shows "current < rr_next current procs plen" and "rr_next current procs plen < plen"
    and "0 < burst_left (procs ! nat (rr_next current procs plen))"
    and "\<forall>j. current < j \<and> j < rr_next current procs plen \<longrightarrow> burst_left (procs ! nat j) \<le> 0"
proof -
  let ?n = "rr_next current procs plen"
  from rr_next_found [OF plen cur(1) found] obtain k where k: "0 \<le> k" "k < plen"
    and n: "?n = ((current + 1) mod plen + k) mod plen"
    and work: "0 < burst_left (procs ! nat ?n)"
    and skipped: "\<forall>k'. 0 \<le> k' \<and> k' < k \<longrightarrow>
                    burst_left (procs ! nat (((current + 1) mod plen + k') mod plen)) \<le> 0"
    by blast
  have n': "?n = (current + 1 + k) mod plen" unfolding n by (simp add: mod_add_left_eq)
  have nowrap: "current + 1 + k < plen"
  proof (rule ccontr)
    assume "\<not> current + 1 + k < plen"
    then have ge: "plen \<le> current + 1 + k" by simp
    have "(current + 1 + k) mod plen = (current + 1 + k - plen) mod plen" by simp
    also have "\<dots> = current + 1 + k - plen"
      using ge k cur by (intro mod_pos_pos_trivial) simp_all
    finally have "?n = current + 1 + k - plen" unfolding n' .
    then have "0 \<le> ?n \<and> ?n \<le> current" using ge k by simp
    then have "burst_left (procs ! nat ?n) \<le> 0" using before by blast
    with work show False by simp
  qed
  then have eq: "?n = current + 1 + k" unfolding n' using cur k by simp
  show "current < ?n" using eq k by simp
  show "?n < plen" using eq nowrap by simp
  show "0 < burst_left (procs ! nat ?n)" by (rule work)
  show "\<forall>j. current < j \<and> j < ?n \<longrightarrow> burst_left (procs ! nat j) \<le> 0"
  proof (intro allI impI)
    fix j assume j: "current < j \<and> j < ?n"
    let ?k' = "j - current - 1"
    have k': "0 \<le> ?k' \<and> ?k' < k" using j eq by simp
    have "((current + 1) mod plen + ?k') mod plen = (current + 1 + ?k') mod plen"
      by (simp add: mod_add_left_eq)
    also have "\<dots> = j" using j eq nowrap cur by simp
    finally show "burst_left (procs ! nat j) \<le> 0" using skipped k' by metis
  qed
qed

text \<open>
  With a quantum that covers every burst, the round-robin loop entered at the first live
  record makes the calls of the first-come-first-served loop.
\<close>

lemma rr_run_loop_calls_fcfs:
  assumes "plen = int (length procs)" and "\<forall>p \<in> set procs. burst_left p \<le> quantum"
    and "0 \<le> current" and "current < plen"
    and "0 < burst_left (procs ! nat current)"
    and "\<forall>j < nat current. burst_left (procs ! j) \<le> 0"
  shows "rr_run_loop_calls procs plen quantum current total_time calls =
         Some (fcfs_run_loop_calls procs plen current total_time calls)"
  using assms
proof (induction "nat (plen - current)" arbitrary: procs current total_time calls rule: less_induct)
  case less
  let ?b = "burst_left (procs ! nat current)"
  let ?p1 = "run_proc procs plen current ?b"
  let ?next = "rr_next current ?p1 plen"
  let ?t1 = "wrap_int (total_time + ?b)"
  let ?c1 = "calls @ [(current, ?b)]"
  note len = less.prems(1)
  have plen: "0 < plen" using less.prems(3,4) by linarith
  have nc: "nat current < length procs" using less.prems(1,3,4) by linarith
  have "?b \<le> quantum" using less.prems(2) nc by simp
  then have rt: "min quantum ?b = ?b" by simp
  have len1: "plen = int (length ?p1)" using len by (simp add: run_proc_length)
  have nth: "?p1 ! j =
     (if j = nat current then (procs ! j)\<lparr>burst_left := 0\<rparr>
      else if 0 < burst_left (procs ! j) then (procs ! j)\<lparr>wait := wrap_int (wait (procs ! j) + ?b)\<rparr>
      else procs ! j)" if "j < length procs" for j
    using run_proc_nth [OF len less.prems(3,4,5,5) that] by simp
  have small1: "\<forall>p \<in> set ?p1. burst_left p \<le> quantum"
  proof
    fix p assume "p \<in> set ?p1"
    then obtain j where j: "j < length procs" "p = ?p1 ! j"
      by (auto simp: in_set_conv_nth run_proc_length)
    have "burst_left (procs ! j) \<le> quantum" using less.prems(2) j(1) by simp
    moreover have "0 \<le> quantum" using \<open>?b \<le> quantum\<close> less.prems(5) by simp
    ultimately show "burst_left p \<le> quantum" using j by (simp add: nth)
  qed
  have before1: "\<forall>j. 0 \<le> j \<and> j \<le> current \<longrightarrow> burst_left (?p1 ! nat j) \<le> 0"
  proof (intro allI impI)
    fix j assume j: "0 \<le> j \<and> j \<le> current"
    then have lt: "nat j < length procs" using nc by linarith
    show "burst_left (?p1 ! nat j) \<le> 0"
    proof (cases "j = current")
      case True
      then show ?thesis using lt by (simp add: nth)
    next
      case False
      then have "nat j < nat current" using j by linarith
      then have "burst_left (procs ! nat j) \<le> 0" using less.prems(6) by simp
      then show ?thesis using lt by (simp add: nth)
    qed
  qed
  have fcfs: "fcfs_run_loop_calls procs plen current total_time calls =
              fcfs_run_loop_calls ?p1 plen (current + 1) ?t1 ?c1"
    using less.prems(4,5) by (subst fcfs_run_loop_calls.simps) (simp add: Let_def)
  show ?case
  proof (cases "?next = - 1")
    case True
    then have none: "\<forall>j. 0 \<le> j \<and> j < plen \<longrightarrow> burst_left (?p1 ! nat j) \<le> 0"
      using rr_next_none_iff [OF plen less.prems(3), of ?p1] by simp
    have "fcfs_run_loop_calls ?p1 plen (current + 1) ?t1 ?c1 =
          fcfs_run_loop_calls ?p1 plen plen ?t1 ?c1"
      using less.prems(3,4) none by (intro fcfs_run_loop_calls_skip) simp_all
    then have "fcfs_run_loop_calls procs plen current total_time calls = (?p1, ?t1, ?c1)"
      unfolding fcfs by (simp only: fcfs_run_loop_calls_end)
    moreover have "rr_run_loop_calls procs plen quantum current total_time calls = Some (?p1, ?t1, ?c1)"
      by (subst rr_run_loop_calls_step [OF less.prems(5)]) (simp only: rt True simp_thms if_True)
    ultimately show ?thesis by (simp only:)
  next
    case False
    note after = rr_next_after [OF plen less.prems(3,4) before1 False]
    have before_next: "\<forall>j < nat ?next. burst_left (?p1 ! j) \<le> 0"
    proof (intro allI impI)
      fix j assume j: "j < nat ?next"
      show "burst_left (?p1 ! j) \<le> 0"
      proof (cases "int j \<le> current")
        case True
        then show ?thesis using before1 [rule_format, of "int j"] by simp
      next
        case False
        then have "current < int j \<and> int j < ?next" using j by linarith
        then show ?thesis using after(4) [rule_format, of "int j"] by simp
      qed
    qed
    have "fcfs_run_loop_calls ?p1 plen (current + 1) ?t1 ?c1 =
          fcfs_run_loop_calls ?p1 plen ?next ?t1 ?c1"
    proof (rule fcfs_run_loop_calls_skip)
      show "current + 1 \<le> ?next" using after(1) by simp
      show "?next \<le> plen" using after(2) by simp
      show "\<forall>j. current + 1 \<le> j \<and> j < ?next \<longrightarrow> burst_left (?p1 ! nat j) \<le> 0"
        using after(4) by simp
    qed
    then have f: "fcfs_run_loop_calls procs plen current total_time calls =
                  fcfs_run_loop_calls ?p1 plen ?next ?t1 ?c1"
      unfolding fcfs .
    have smaller: "nat (plen - ?next) < nat (plen - current)"
      using after(1,2) by linarith
    have nn: "0 \<le> ?next" using after(1) less.prems(3) by linarith
    have "rr_run_loop_calls ?p1 plen quantum ?next ?t1 ?c1 =
          Some (fcfs_run_loop_calls ?p1 plen ?next ?t1 ?c1)"
      using smaller len1 small1 nn after(2,3) before_next by (rule less.hyps)
    moreover have "rr_run_loop_calls procs plen quantum current total_time calls =
                   rr_run_loop_calls ?p1 plen quantum ?next ?t1 ?c1"
      by (subst rr_run_loop_calls_step [OF less.prems(5)]) (simp only: rt False simp_thms if_False)
    ultimately show ?thesis by (simp only: f)
  qed
qed
text \<open>The calls of the first-come-first-served loop: one for each live record, in order.\<close>

lemma fcfs_run_loop_calls_made:
  assumes "plen = int (length procs)" and "0 \<le> i" and "i \<le> plen"
  shows "snd (snd (fcfs_run_loop_calls procs plen i total_time calls)) =
         calls @ filter (\<lambda>(j, b). 0 < b)
                   (map (\<lambda>j. (int j, burst_left (procs ! j))) [nat i..<length procs])"
  using assms
proof (induction procs plen i total_time calls rule: fcfs_run_loop_calls.induct)
  case (1 procs plen i total_time calls)
  note len = "1.prems"(1)
  show ?case
  proof (cases "i < plen")
    case False
    with "1.prems" have "nat i = length procs" by simp
    then show ?thesis using False by (subst fcfs_run_loop_calls.simps) simp
  next
    case True
    note lt = True
    have ni: "nat i < length procs" using lt "1.prems" by simp
    have suc: "nat (i + 1) = Suc (nat i)" using "1.prems"(2) by simp
    have upt: "[nat i..<length procs] = nat i # [Suc (nat i)..<length procs]"
      using ni by (rule upt_conv_Cons)
    have ii: "int (nat i) = i" using "1.prems"(2) by simp
    show ?thesis
    proof (cases "burst_left (procs ! nat i) \<le> 0")
      case True
      have eq: "fcfs_run_loop_calls procs plen i total_time calls =
                fcfs_run_loop_calls procs plen (i + 1) total_time calls"
        using lt True by (subst fcfs_run_loop_calls.simps) (simp add: Let_def)
      have "snd (snd (fcfs_run_loop_calls procs plen (i + 1) total_time calls)) =
            calls @ filter (\<lambda>(j, b). 0 < b)
                      (map (\<lambda>j. (int j, burst_left (procs ! j))) [Suc (nat i)..<length procs])"
        using "1.IH"(1) [OF lt refl True len] lt "1.prems"(2) by (simp add: suc)
      then show ?thesis unfolding eq upt using True by simp
    next
      case False
      then have pos: "0 < burst_left (procs ! nat i)" by simp
      let ?b = "burst_left (procs ! nat i)"
      let ?p = "run_proc procs plen i ?b"
      have eq: "fcfs_run_loop_calls procs plen i total_time calls =
                fcfs_run_loop_calls ?p plen (i + 1) (wrap_int (total_time + ?b)) (calls @ [(i, ?b)])"
        using lt False by (subst fcfs_run_loop_calls.simps) (simp add: Let_def)
      have plen': "plen = int (length ?p)" using len by (simp add: run_proc_length)
      have later: "burst_left (?p ! j) = burst_left (procs ! j)"
        if "Suc (nat i) \<le> j" "j < length procs" for j
        using that run_proc_nth [OF len "1.prems"(2) lt pos pos that(2)] by simp
      have same: "map (\<lambda>j. (int j, burst_left (?p ! j))) [Suc (nat i)..<length procs] =
                  map (\<lambda>j. (int j, burst_left (procs ! j))) [Suc (nat i)..<length procs]"
        by (rule map_cong) (simp_all add: later)
      have "snd (snd (fcfs_run_loop_calls ?p plen (i + 1) (wrap_int (total_time + ?b)) (calls @ [(i, ?b)]))) =
            (calls @ [(i, ?b)]) @ filter (\<lambda>(j, b). 0 < b)
                      (map (\<lambda>j. (int j, burst_left (?p ! j))) [Suc (nat i)..<length procs])"
        using "1.IH"(2) [OF lt refl False plen'] lt "1.prems"(2) by (simp add: suc run_proc_length)
      then show ?thesis unfolding eq upt same using pos ii by simp
    qed
  qed
qed

text \<open>
  Claim C7. On the table created from a non-empty sequence of non-negative bursts, and
  with a quantum that is at least every burst, \<open>rr_run\<close> returns what \<open>fcfs_run\<close>
  returns: the same table, so the same \<open>wait\<close> in every record, and the same total.
  The two drivers make the same calls of \<open>run_proc\<close>: one call for each process with
  a positive burst, for the whole burst, in the order of the ids.
\<close>

theorem rr_run_large_quantum:
  assumes "bursts \<noteq> []" and "\<forall>b \<in> set bursts. 0 \<le> b" and "\<forall>b \<in> set bursts. b \<le> quantum"
    and "init_procs bursts (int (length bursts)) = Some procs"
  shows "rr_run procs (int (length bursts)) quantum = Some (fcfs_run procs (int (length bursts)))
    \<and> rr_run_calls procs (int (length bursts)) quantum = Some (fcfs_run_calls procs (int (length bursts)))
    \<and> snd (snd (fcfs_run_calls procs (int (length bursts)))) =
        filter (\<lambda>(i, b). 0 < b) (map (\<lambda>i. (int i, bursts ! i)) [0..<length bursts])"
proof -
  let ?plen = "int (length bursts)"
  note flds = init_procs_Some [OF assms(4)]
  have len: "?plen = int (length procs)" using flds(1) by simp
  have plen: "0 < ?plen" using assms(1) by simp
  have "burst_left ` set procs = set bursts"
    using init_procs_fields(1) [OF assms(4)] by (metis set_map)
  then have small: "\<forall>p \<in> set procs. burst_left p \<le> quantum" using assms(3) by auto
  have fcfs: "fcfs_run_calls procs ?plen = fcfs_run_loop_calls procs ?plen 0 0 []"
    using plen by (simp add: fcfs_run_calls_def)
  have idle: "rr_run_calls procs ?plen quantum = Some (fcfs_run_calls procs ?plen)"
    if none: "\<forall>j. 0 \<le> j \<and> j < ?plen \<longrightarrow> burst_left (procs ! nat j) \<le> 0"
  proof -
    have "rr_first procs ?plen 0 = - 1"
    proof (rule ccontr)
      assume "rr_first procs ?plen 0 \<noteq> - 1"
      with rr_first_cases [of 0 procs ?plen]
      have "0 \<le> rr_first procs ?plen 0 \<and> rr_first procs ?plen 0 < ?plen
            \<and> 0 < burst_left (procs ! nat (rr_first procs ?plen 0))" by simp
      with none show False by force
    qed
    then have "rr_run_calls procs ?plen quantum = Some (procs, 0, [])"
      by (simp add: rr_run_calls_def)
    moreover have "fcfs_run_loop_calls procs ?plen 0 0 [] = fcfs_run_loop_calls procs ?plen ?plen 0 []"
      using none by (intro fcfs_run_loop_calls_skip) simp_all
    ultimately show ?thesis unfolding fcfs by (simp only: fcfs_run_loop_calls_end)
  qed
  have calls: "rr_run_calls procs ?plen quantum = Some (fcfs_run_calls procs ?plen)"
  proof (cases "rr_first procs ?plen 0 = - 1")
    case True
    then have "\<forall>j. 0 \<le> j \<and> j < ?plen \<longrightarrow> burst_left (procs ! nat j) \<le> 0"
      using rr_first_cases [of 0 procs ?plen] by auto
    then show ?thesis by (rule idle)
  next
    case False
    let ?c = "rr_first procs ?plen 0"
    from rr_first_cases [of 0 procs ?plen] False
    have cur: "0 \<le> ?c" "?c < ?plen" "0 < burst_left (procs ! nat ?c)"
      and before: "\<forall>j. 0 \<le> j \<and> j < ?c \<longrightarrow> burst_left (procs ! nat j) \<le> 0"
      by auto
    have "nat ?c < length procs" using cur(1,2) len by linarith
    then have "burst_left (procs ! nat ?c) \<le> quantum" using small by simp
    then have q: "0 < quantum" using cur(3) by simp
    have before': "\<forall>j < nat ?c. burst_left (procs ! j) \<le> 0"
    proof (intro allI impI)
      fix j assume "j < nat ?c"
      then have "0 \<le> int j \<and> int j < ?c" by linarith
      then show "burst_left (procs ! j) \<le> 0" using before [rule_format, of "int j"] by simp
    qed
    have "rr_run_calls procs ?plen quantum = rr_run_loop_calls procs ?plen quantum ?c 0 []"
      using plen q False by (simp add: rr_run_calls_def Let_def)
    also have "\<dots> = Some (fcfs_run_loop_calls procs ?plen ?c 0 [])"
      using len small cur before' by (rule rr_run_loop_calls_fcfs)
    also have "fcfs_run_loop_calls procs ?plen ?c 0 [] = fcfs_run_loop_calls procs ?plen 0 0 []"
      using cur(1,2) before by (intro fcfs_run_loop_calls_skip [symmetric]) simp_all
    finally show ?thesis unfolding fcfs .
  qed
  have "rr_run procs ?plen quantum =
        Some (fst (fcfs_run_calls procs ?plen), fst (snd (fcfs_run_calls procs ?plen)))"
    using calls by (rule rr_run_calls_plain)
  then have plain: "rr_run procs ?plen quantum = Some (fcfs_run procs ?plen)"
    by (simp only: fcfs_run_calls_plain)
  have "map (\<lambda>j. (int j, burst_left (procs ! j))) [0..<length procs] =
        map (\<lambda>i. (int i, bursts ! i)) [0..<length bursts]"
    unfolding flds(1) by (rule map_cong) (simp_all add: flds(2))
  then have made: "snd (snd (fcfs_run_calls procs ?plen)) =
        filter (\<lambda>(i, b). 0 < b) (map (\<lambda>i. (int i, bursts ! i)) [0..<length bursts])"
    unfolding fcfs using fcfs_run_loop_calls_made [OF len order_refl, of 0 "[]"] plen by simp
  from plain calls made show ?thesis by (intro conjI)
qed

theorem rr_run_large_quantum_witness:
  "rr_run [\<lparr>pid = 0, burst_left = 5, wait = 0\<rparr>, \<lparr>pid = 1, burst_left = 0, wait = 0\<rparr>,
           \<lparr>pid = 2, burst_left = 8, wait = 0\<rparr>] 3 8 =
     Some ([\<lparr>pid = 0, burst_left = 0, wait = 0\<rparr>, \<lparr>pid = 1, burst_left = 0, wait = 0\<rparr>,
            \<lparr>pid = 2, burst_left = 0, wait = 5\<rparr>], 13)"
proof -
  let ?procs = "[\<lparr>pid = 0, burst_left = 5, wait = 0\<rparr>, \<lparr>pid = 1, burst_left = 0, wait = 0\<rparr>,
                 \<lparr>pid = 2, burst_left = 8, wait = 0\<rparr>]"
  have ne: "[5 :: int, 0, 8] \<noteq> []" by simp
  have nonneg: "\<forall>b \<in> set [5 :: int, 0, 8]. 0 \<le> b" by simp
  have small: "\<forall>b \<in> set [5 :: int, 0, 8]. b \<le> 8" by simp
  have init: "init_procs [5, 0, 8] (int (length [5 :: int, 0, 8])) = Some ?procs"
    by (simp add: init_procs_def init_procs_loop.simps)
  have fcfs: "fcfs_run ?procs 3 =
     ([\<lparr>pid = 0, burst_left = 0, wait = 0\<rparr>, \<lparr>pid = 1, burst_left = 0, wait = 0\<rparr>,
       \<lparr>pid = 2, burst_left = 0, wait = 5\<rparr>], 13)"
    by code_simp
  from rr_run_large_quantum [OF ne nonneg small init]
  have "rr_run ?procs 3 8 = Some (fcfs_run ?procs 3)" by simp
  then show ?thesis by (simp only: fcfs)
qed

end
